theory Spec2Isabelle
  imports Complex_Main "HOL-Library.Signed_Division" "HOL-Library.AList" "HOL-Library.Log_Nat"
begin

section \<open>Faults and sequencing\<close>

text \<open>
  The Go code has no error returns past the constructor, but it can stop abnormally:
  a nil pointer dereference, an integer division by zero, or a loop that never ends.
  Each is a value of \<open>fault\<close>; every operation that may stop so returns
  \<open>fault + result\<close>. \<open>Diverges\<close> stands for a loop that used up its iteration budget.
\<close>

datatype fault = NilDereference | DivideByZero | Diverges

definition seq :: "fault + 'a \<Rightarrow> ('a \<Rightarrow> fault + 'b) \<Rightarrow> fault + 'b" where
  "seq m f = (case m of Inl e \<Rightarrow> Inl e | Inr x \<Rightarrow> f x)"

section \<open>The ring primitive (package ring)\<close>

text \<open>
  A \<open>*Ring\<close> is an address into a store of page records; \<open>None\<close> is the nil pointer.
  Records are allocated at the end of the store and never freed (Go is garbage collected,
  and a record that left the ring can still be pointed to by a hand).
  The Go fields \<open>next\<close> and \<open>prev\<close> are called \<open>rnext\<close> and \<open>rprev\<close>.
\<close>

record ('k, 'v) page =
  rnext :: "nat option"
  rprev :: "nat option"
  Value :: 'v
  Name :: 'k
  LIR :: bool
  Resident :: bool
  Demoted :: bool
  Referenced :: bool
  Stacked :: bool

type_synonym ('k, 'v) heap = "('k, 'v) page list"

definition init :: "('k, 'v) heap \<Rightarrow> nat \<Rightarrow> ('k, 'v) heap \<times> nat" where
  "init h r = (h[r := (h ! r)\<lparr>rnext := Some r, rprev := Some r\<rparr>], r)"

definition Next :: "('k, 'v) heap \<Rightarrow> nat \<Rightarrow> ('k, 'v) heap \<times> nat" where
  "Next h r = (case rnext (h ! r) of None \<Rightarrow> init h r | Some n \<Rightarrow> (h, n))"

definition Prev :: "('k, 'v) heap \<Rightarrow> nat \<Rightarrow> ('k, 'v) heap \<times> nat option" where
  "Prev h r =
     (case rnext (h ! r) of
        None \<Rightarrow> (case init h r of (h', r') \<Rightarrow> (h', Some r'))
      | Some _ \<Rightarrow> (h, rprev (h ! r)))"

text \<open>The two loops of \<open>Move\<close>: \<open>r = r.prev\<close> or \<open>r = r.next\<close>, \<open>n\<close> times.\<close>

fun walk :: "(('k, 'v) page \<Rightarrow> nat option) \<Rightarrow> ('k, 'v) heap \<Rightarrow> nat \<Rightarrow> nat option
    \<Rightarrow> fault + nat option" where
  "walk fld h 0 r = Inr r"
| "walk fld h (Suc n) r =
     (case r of None \<Rightarrow> Inl NilDereference | Some p \<Rightarrow> walk fld h n (fld (h ! p)))"

definition Move :: "('k, 'v) heap \<Rightarrow> nat \<Rightarrow> int \<Rightarrow> fault + (('k, 'v) heap \<times> nat option)" where
  "Move h r n =
     (case rnext (h ! r) of
        None \<Rightarrow> (case init h r of (h', r') \<Rightarrow> Inr (h', Some r'))
      | Some _ \<Rightarrow>
          if n < 0 then seq (walk rprev h (nat (- n)) (Some r)) (\<lambda>q. Inr (h, q))
          else if n > 0 then seq (walk rnext h (nat n) (Some r)) (\<lambda>q. Inr (h, q))
          else Inr (h, Some r))"

definition Link :: "('k, 'v) heap \<Rightarrow> nat \<Rightarrow> nat option \<Rightarrow> fault + (('k, 'v) heap \<times> nat)" where
  "Link h r s =
     (case Next h r of (h1, n) \<Rightarrow>
        (case s of
           None \<Rightarrow> Inr (h1, n)
         | Some s' \<Rightarrow>
            (case Prev h1 s' of (h2, p) \<Rightarrow>
               let h3 = h2[r := (h2 ! r)\<lparr>rnext := Some s'\<rparr>];
                   h4 = h3[s' := (h3 ! s')\<lparr>rprev := Some r\<rparr>];
                   h5 = h4[n := (h4 ! n)\<lparr>rprev := p\<rparr>]
               in (case p of
                     None \<Rightarrow> Inl NilDereference
                   | Some p' \<Rightarrow> Inr (h5[p' := (h5 ! p')\<lparr>rnext := Some n\<rparr>], n)))))"

definition Unlink :: "('k, 'v) heap \<Rightarrow> nat \<Rightarrow> int \<Rightarrow> fault + (('k, 'v) heap \<times> nat option)" where
  "Unlink h r n =
     (if n \<le> 0 then Inr (h, None)
      else seq (Move h r (n + 1)) (\<lambda>(h1, s).
           seq (Link h1 r s) (\<lambda>(h2, m). Inr (h2, Some m))))"

section \<open>The cache (clock.go)\<close>

text \<open>
  The \<open>Cache\<close> struct, with the store of page records it points into as one more field.
  The index is the Go map, kept as an association list with distinct keys
  (\<open>map_of\<close> reads it, \<open>AList.update\<close> writes it, \<open>AList.delete\<close> deletes from it).
  The counters are Go \<open>int\<close>s; they move by one per step and are taken as unbounded integers.
\<close>

record ('k, 'v) cache =
  index :: "('k \<times> nat) list"
  hot :: "nat option"
  cold :: "nat option"
  test :: "nat option"
  lru :: "nat option"
  capacity :: int
  coldTarget :: int
  hotTarget :: int
  coldCount :: int
  hotCount :: int
  testCount :: int
  demotions :: int
  pages :: "('k, 'v) heap"

definition MinimumCapacity :: int where
  "MinimumCapacity = 2"

text \<open>Reading and writing the record a pointer points to.\<close>

definition pg :: "('k, 'v) cache \<Rightarrow> nat \<Rightarrow> ('k, 'v) page" where
  "pg c p = pages c ! p"

definition upd :: "('k, 'v) cache \<Rightarrow> nat \<Rightarrow> (('k, 'v) page \<Rightarrow> ('k, 'v) page) \<Rightarrow> ('k, 'v) cache" where
  "upd c p f = c\<lparr>pages := (pages c)[p := f (pages c ! p)]\<rparr>"

subsection \<open>Target adaptation\<close>

text \<open>Go's \<open>/\<close> on \<open>int\<close> truncates toward zero (\<open>sdiv\<close>) and panics on a zero divisor.\<close>

definition go_div :: "int \<Rightarrow> int \<Rightarrow> fault + int" where
  "go_div a b = (if b = 0 then Inl DivideByZero else Inr (a sdiv b))"

definition adjustColdTarget :: "('k, 'v) cache \<Rightarrow> int \<Rightarrow> ('k, 'v) cache" where
  "adjustColdTarget c delta =
     (let size = capacity c;
          diff = max (coldTarget c + delta) 1;
          coldTarget' = min diff (size sdiv 2)
      in c\<lparr>coldTarget := coldTarget', hotTarget := size - coldTarget'\<rparr>)"

definition increaseColdTarget :: "('k, 'v) cache \<Rightarrow> fault + ('k, 'v) cache" where
  "increaseColdTarget c =
     seq (go_div (demotions c) (testCount c)) (\<lambda>q. Inr (adjustColdTarget c (max q 1)))"

definition decreaseColdTarget :: "('k, 'v) cache \<Rightarrow> fault + ('k, 'v) cache" where
  "decreaseColdTarget c =
     seq (go_div (testCount c) (demotions c)) (\<lambda>q. Inr (adjustColdTarget c (- max q 1)))"

subsection \<open>The test hand\<close>

text \<open>
  Every loop takes an iteration budget as its first argument and hands what is left of it
  to the loops it calls; a loop that exhausts the budget returns \<open>Diverges\<close>.
\<close>

primrec sweepTest_loop :: "nat \<Rightarrow> ('k, 'v) cache \<Rightarrow> nat \<Rightarrow> fault + ('k, 'v) cache" where
  "sweepTest_loop 0 c hand = Inl Diverges"
| "sweepTest_loop (Suc n) c hand =
     (if LIR (pg c hand) \<or> Resident (pg c hand)
      then (case Next (pages c) hand of (h, hand') \<Rightarrow> sweepTest_loop n (c\<lparr>pages := h\<rparr>) hand')
      else Inr (c\<lparr>test := Some hand\<rparr>))"

definition sweepTest :: "nat \<Rightarrow> ('k, 'v) cache \<Rightarrow> fault + ('k, 'v) cache" where
  "sweepTest n c =
     (if testCount c = 0 then Inr (c\<lparr>test := None\<rparr>)
      else case test c of
             None \<Rightarrow> Inl NilDereference
           | Some hand \<Rightarrow> sweepTest_loop n c hand)"

text \<open>\<open>removeTest\<close> on a non-nil page; a nil argument panics at its first dereference
  and is handled by the caller that can pass one (\<open>pruneTest\<close>).\<close>

definition removeTest :: "nat \<Rightarrow> ('k, 'v) cache \<Rightarrow> nat \<Rightarrow> fault + ('k, 'v) cache" where
  "removeTest n c tst =
     (let c1 = (if Some tst = test c
                then (case Next (pages c) tst of (h, nx) \<Rightarrow> c\<lparr>pages := h, test := Some nx\<rparr>)
                else c);
          c2 = c1\<lparr>index := AList.delete (Name (pg c1 tst)) (index c1)\<rparr>
      in case Prev (pages c2) tst of
           (h, None) \<Rightarrow> Inl NilDereference
         | (h, Some pv) \<Rightarrow>
             seq (Unlink h pv 1) (\<lambda>(h', _).
               sweepTest n (c2\<lparr>pages := h', testCount := testCount c2 - 1\<rparr>)))"

subsection \<open>The hot hand\<close>

definition handleHotLIR :: "('k, 'v) cache \<Rightarrow> nat \<Rightarrow> ('k, 'v) cache" where
  "handleHotLIR c page = (upd c page (\<lambda>x. x\<lparr>Referenced := False\<rparr>))\<lparr>lru := Some page\<rparr>"

definition handleHotHIR :: "nat \<Rightarrow> ('k, 'v) cache \<Rightarrow> nat \<Rightarrow> nat \<Rightarrow> fault + ('k, 'v) cache" where
  "handleHotHIR n c page nxt =
     (if Resident (pg c page) then
        (if Referenced (pg c page) then
           (let c1 = upd c page (\<lambda>x. x\<lparr>Referenced := False\<rparr>) in
            seq (if Demoted (pg c1 page)
                 then seq (decreaseColdTarget c1) (\<lambda>c2.
                        Inr ((upd c2 page (\<lambda>x. x\<lparr>Demoted := False\<rparr>))
                               \<lparr>demotions := demotions c2 - 1\<rparr>))
                 else Inr c1) (\<lambda>c3.
            let c4 = c3\<lparr>lru := Some page\<rparr>
            in Inr (if Some page = cold c4 then c4\<lparr>cold := Some nxt\<rparr> else c4)))
         else Inr (upd c page (\<lambda>x. x\<lparr>Stacked := False\<rparr>)))
      else removeTest n c page)"

primrec sweepHot_loop :: "nat \<Rightarrow> ('k, 'v) cache \<Rightarrow> nat \<Rightarrow> fault + ('k, 'v) cache" where
  "sweepHot_loop 0 c page = Inl Diverges"
| "sweepHot_loop (Suc n) c page =
     (if \<not> LIR (pg c page) \<or> Referenced (pg c page)
      then (case Next (pages c) page of (h, nxt) \<Rightarrow>
              let c1 = c\<lparr>pages := h\<rparr> in
              seq (if LIR (pg c1 page) then Inr (handleHotLIR c1 page)
                   else handleHotHIR n c1 page nxt)
                  (\<lambda>c2. sweepHot_loop n c2 nxt))
      else Inr (c\<lparr>hot := Some page\<rparr>))"

definition sweepHot :: "nat \<Rightarrow> ('k, 'v) cache \<Rightarrow> fault + ('k, 'v) cache" where
  "sweepHot n c =
     (if hotCount c = 0 then Inr c
      else case hot c of
             None \<Rightarrow> Inl NilDereference
           | Some page \<Rightarrow> sweepHot_loop n c page)"

subsection \<open>Promotion and demotion\<close>

definition moveToLRU :: "('k, 'v) cache \<Rightarrow> nat \<Rightarrow> fault + ('k, 'v) cache" where
  "moveToLRU c page =
     (if Some page = lru c then Inr c
      else case Prev (pages c) page of
             (h, None) \<Rightarrow> Inl NilDereference
           | (h, Some pv) \<Rightarrow>
               seq (Unlink h pv 1) (\<lambda>(h1, leaf).
                 case lru c of
                   None \<Rightarrow> Inl NilDereference
                 | Some l \<Rightarrow> seq (Link h1 l leaf) (\<lambda>(h2, _). Inr (c\<lparr>pages := h2, lru := leaf\<rparr>))))"

definition demoteHot :: "nat \<Rightarrow> ('k, 'v) cache \<Rightarrow> fault + ('k, 'v) cache" where
  "demoteHot n c =
     (case hot c of
        None \<Rightarrow> Inl NilDereference
      | Some page \<Rightarrow>
          (case Next (pages c) page of (h, nxt) \<Rightarrow>
             let c1 = c\<lparr>pages := h, hot := Some nxt\<rparr>;
                 c2 = upd c1 page (\<lambda>x. x\<lparr>LIR := False, Stacked := False, Demoted := True\<rparr>);
                 c3 = c2\<lparr>hotCount := hotCount c2 - 1, coldCount := coldCount c2 + 1,
                         demotions := demotions c2 + 1\<rparr>
             in seq (moveToLRU c3 page) (sweepHot n)))"

primrec promoteCold_loop :: "nat \<Rightarrow> ('k, 'v) cache \<Rightarrow> fault + ('k, 'v) cache" where
  "promoteCold_loop 0 c = Inl Diverges"
| "promoteCold_loop (Suc n) c =
     (if hotCount c > hotTarget c then seq (demoteHot n c) (promoteCold_loop n) else Inr c)"

definition promoteCold :: "nat \<Rightarrow> ('k, 'v) cache \<Rightarrow> nat \<Rightarrow> fault + ('k, 'v) cache" where
  "promoteCold n c coldToHot =
     (let c1 = upd c coldToHot (\<lambda>x. x\<lparr>LIR := True\<rparr>);
          c2 = c1\<lparr>hotCount := hotCount c1 + 1, coldCount := coldCount c1 - 1\<rparr>
      in seq (moveToLRU c2 coldToHot) (promoteCold_loop n))"

subsection \<open>The cold hand\<close>

definition handleReferencedCold :: "nat \<Rightarrow> ('k, 'v) cache \<Rightarrow> nat \<Rightarrow> fault + ('k, 'v) cache" where
  "handleReferencedCold n c page =
     (let c1 = upd c page (\<lambda>x. x\<lparr>Referenced := False\<rparr>) in
      seq (if Demoted (pg c1 page)
           then seq (decreaseColdTarget c1) (\<lambda>c2.
                  Inr ((upd c2 page (\<lambda>x. x\<lparr>Demoted := False\<rparr>))
                         \<lparr>demotions := demotions c2 - 1\<rparr>))
           else Inr c1) (\<lambda>c3.
      if Stacked (pg c3 page) then promoteCold n c3 page
      else moveToLRU (upd c3 page (\<lambda>x. x\<lparr>Stacked := True\<rparr>)) page))"

primrec sweepCold_loop :: "nat \<Rightarrow> ('k, 'v) cache \<Rightarrow> nat \<Rightarrow> fault + ('k, 'v) cache" where
  "sweepCold_loop 0 c hand = Inl Diverges"
| "sweepCold_loop (Suc n) c hand =
     (if LIR (pg c hand) \<or> \<not> Resident (pg c hand) \<or> Referenced (pg c hand)
      then (case Next (pages c) hand of (h, hand') \<Rightarrow>
              let c1 = c\<lparr>pages := h\<rparr> in
              if LIR (pg c1 hand) \<or> \<not> Referenced (pg c1 hand)
              then sweepCold_loop n c1 hand'
              else seq (handleReferencedCold n c1 hand) (\<lambda>c2. sweepCold_loop n c2 hand'))
      else Inr (c\<lparr>cold := Some hand\<rparr>))"

definition sweepCold :: "nat \<Rightarrow> ('k, 'v) cache \<Rightarrow> fault + ('k, 'v) cache" where
  "sweepCold n c =
     (if coldCount c = 0 then Inr c
      else case cold c of
             None \<Rightarrow> Inl NilDereference
           | Some hand \<Rightarrow> sweepCold_loop n c hand)"

subsection \<open>Eviction, insertion, ghost hits\<close>

definition evictCold :: "nat \<Rightarrow> ('k, 'v::zero) cache \<Rightarrow> fault + ('k, 'v) cache" where
  "evictCold n c =
     (case cold c of
        None \<Rightarrow> Inl NilDereference
      | Some page \<Rightarrow>
          (case Next (pages c) page of (h, nxt) \<Rightarrow>
             let c1 = c\<lparr>pages := h, cold := Some nxt\<rparr>;
                 c2 = upd c1 page (\<lambda>x. x\<lparr>Resident := False, Value := 0\<rparr>);
                 c3 = c2\<lparr>coldCount := coldCount c2 - 1, testCount := testCount c2 + 1\<rparr>;
                 c4 = (if Demoted (pg c3 page)
                       then (upd c3 page (\<lambda>x. x\<lparr>Demoted := False\<rparr>))
                              \<lparr>demotions := demotions c3 - 1\<rparr>
                       else c3);
                 c5 = (if test c4 = None then c4\<lparr>test := Some page\<rparr> else c4)
             in if \<not> Stacked (pg c5 page)
                then (let c6 = (if Some page = lru c5
                                then (case Prev (pages c5) page of
                                        (h', pv) \<Rightarrow> c5\<lparr>pages := h', lru := pv\<rparr>)
                                else c5)
                      in removeTest n c6 page)
                else Inr c5))"

definition addToClock :: "('k, 'v) cache \<Rightarrow> nat \<Rightarrow> fault + ('k, 'v) cache" where
  "addToClock c page =
     seq (case lru c of
            None \<Rightarrow> Inr (c\<lparr>lru := Some page, hot := Some page\<rparr>)
          | Some l \<Rightarrow> seq (Link (pages c) l (Some page))
                          (\<lambda>(h, _). Inr (c\<lparr>pages := h, lru := Some page\<rparr>)))
         (\<lambda>c1. Inr (c1\<lparr>index := AList.update (Name (pg c1 page)) page (index c1)\<rparr>))"

text \<open>\<open>c.capacity * 2\<close> is the one product of a caller-supplied number; it is taken in
  64-bit two's complement, as Go's \<open>int\<close> is on a 64-bit platform.\<close>

definition wrap64 :: "int \<Rightarrow> int" where
  "wrap64 x = (x + 2 ^ 63) mod 2 ^ 64 - 2 ^ 63"

primrec pruneTest_loop :: "nat \<Rightarrow> int \<Rightarrow> ('k, 'v) cache \<Rightarrow> fault + ('k, 'v) cache" where
  "pruneTest_loop 0 metadataLimit c = Inl Diverges"
| "pruneTest_loop (Suc n) metadataLimit c =
     (if coldCount c + hotCount c + testCount c > metadataLimit
      then (case test c of
              None \<Rightarrow> Inl NilDereference
            | Some t \<Rightarrow> seq (removeTest n c t) (pruneTest_loop n metadataLimit))
      else Inr c)"

definition pruneTest :: "nat \<Rightarrow> ('k, 'v) cache \<Rightarrow> fault + ('k, 'v) cache" where
  "pruneTest n c = pruneTest_loop n (wrap64 (capacity c * 2)) c"

definition addNew :: "nat \<Rightarrow> ('k, 'v) cache \<Rightarrow> 'k \<Rightarrow> 'v \<Rightarrow> fault + ('k, 'v) cache" where
  "addNew n c key val =
     (let lowIRR = (coldCount c = 0 \<and> hotCount c < hotTarget c);
          page = length (pages c);
          c1 = c\<lparr>pages := pages c @
                 [\<lparr>rnext = None, rprev = None, Value = val, Name = key, LIR = lowIRR,
                   Resident = True, Demoted = False, Referenced = False, Stacked = True\<rparr>]\<rparr>
      in seq (addToClock c1 page) (\<lambda>c2.
         let c3 = (if lowIRR then c2\<lparr>hotCount := hotCount c2 + 1\<rparr>
                   else (let c2' = (if cold c2 = None then c2\<lparr>cold := Some page\<rparr> else c2)
                         in c2'\<lparr>coldCount := coldCount c2' + 1\<rparr>))
         in seq (sweepCold n c3) (pruneTest n)))"

definition promoteTest :: "nat \<Rightarrow> ('k, 'v::zero) cache \<Rightarrow> nat \<Rightarrow> 'v \<Rightarrow> fault + ('k, 'v) cache" where
  "promoteTest n c testToHot val =
     seq (increaseColdTarget c) (\<lambda>c1.
     seq (evictCold n c1) (\<lambda>c2.
       let c3 = upd c2 testToHot (\<lambda>x. x\<lparr>Value := val, Resident := True\<rparr>);
           c4 = c3\<lparr>testCount := testCount c3 - 1, coldCount := coldCount c3 + 1\<rparr>
       in seq (if Some testToHot = test c4 then sweepTest n c4 else Inr c4) (\<lambda>c5.
          seq (promoteCold n c5 testToHot) (sweepCold n))))"

definition atCapacity :: "('k, 'v) cache \<Rightarrow> bool" where
  "atCapacity c = (coldCount c + hotCount c = capacity c)"

definition handleMiss :: "nat \<Rightarrow> ('k, 'v::zero) cache \<Rightarrow> 'k \<Rightarrow> 'v \<Rightarrow> bool \<Rightarrow> fault + ('k, 'v) cache" where
  "handleMiss n c key val hadMetadata =
     seq (sweepHot n c) (\<lambda>c1.
     seq (sweepCold n c1) (\<lambda>c2.
       case (if hadMetadata then map_of (index c2) key else None) of
         Some tst \<Rightarrow> promoteTest n c2 tst val
       | None \<Rightarrow> seq (if atCapacity c2 then evictCold n c2 else Inr c2)
                     (\<lambda>c3. addNew n c3 key val)))"

subsection \<open>The public operations\<close>

definition Get :: "('k, 'v::zero) cache \<Rightarrow> 'k \<Rightarrow> ('k, 'v) cache \<times> 'v \<times> bool" where
  "Get c key =
     (case map_of (index c) key of
        Some page \<Rightarrow>
          if Resident (pg c page)
          then (upd c page (\<lambda>x. x\<lparr>Referenced := True\<rparr>), Value (pg c page), True)
          else (c, 0, False)
      | None \<Rightarrow> (c, 0, False))"

definition Set :: "nat \<Rightarrow> ('k, 'v::zero) cache \<Rightarrow> 'k \<Rightarrow> 'v \<Rightarrow> fault + ('k, 'v) cache" where
  "Set n c key val =
     (case map_of (index c) key of
        Some page \<Rightarrow>
          if Resident (pg c page)
          then Inr (upd c page (\<lambda>x. x\<lparr>Referenced := True, Value := val\<rparr>))
          else handleMiss n c key val True
      | None \<Rightarrow> handleMiss n c key val False)"

text \<open>\<open>fetch\<close> is what the caller's function returns when it is called: a value and,
  when it failed, an error.\<close>

definition Load :: "nat \<Rightarrow> ('k, 'v::zero) cache \<Rightarrow> 'k \<Rightarrow> ('v \<times> 'e option)
    \<Rightarrow> fault + (('k, 'v) cache \<times> 'v \<times> 'e option)" where
  "Load n c key fetch =
     (case Get c key of
        (c1, val, True) \<Rightarrow> Inr (c1, val, None)
      | (c1, _, False) \<Rightarrow>
          (case fetch of
             (val, Some err) \<Rightarrow> Inr (c1, val, Some err)
           | (val, None) \<Rightarrow>
               seq (handleMiss n c1 key val False) (\<lambda>c2. Inr (c2, val, None))))"

definition Len :: "('k, 'v) cache \<Rightarrow> int" where
  "Len c = hotCount c + coldCount c"

text \<open>
  \<open>Keys\<close>: Go ranges over the map in an order of its choosing; \<open>entries\<close> is that order,
  an enumeration of the index. The result lists the keys handed to \<open>yield\<close>.
\<close>

fun Keys_loop :: "('k, 'v) cache \<Rightarrow> ('k \<Rightarrow> bool) \<Rightarrow> int \<Rightarrow> ('k \<times> nat) list \<Rightarrow> 'k list" where
  "Keys_loop c yield residents [] = []"
| "Keys_loop c yield residents ((key, page) # rest) =
     (if Resident (pg c page)
      then (if \<not> yield key then [key]
            else key # (if residents - 1 = 0 then []
                        else Keys_loop c yield (residents - 1) rest))
      else Keys_loop c yield residents rest)"

definition Keys :: "('k, 'v) cache \<Rightarrow> ('k \<times> nat) list \<Rightarrow> ('k \<Rightarrow> bool) \<Rightarrow> 'k list" where
  "Keys c entries yield = Keys_loop c yield (Len c) entries"

section \<open>Construction (error.go and New)\<close>

text \<open>
  \<open>constError\<close> is a string type; \<open>fmt.Errorf\<close> with one \<open>%w\<close> verb returns an error that
  carries the formatted message and the error it wraps (what \<open>errors.Is\<close> and
  \<open>errors.Unwrap\<close> see). \<open>%d\<close> prints an \<open>int\<close> in decimal, with a minus sign when negative.
\<close>

type_synonym constError = string

definition ErrInvalidCapacity :: constError where
  "ErrInvalidCapacity = ''invalid capacity''"

record wrapError =
  msg :: string
  wrapped :: constError

definition digit :: "nat \<Rightarrow> char" where
  "digit d = ''0123456789'' ! d"

fun decimal :: "nat \<Rightarrow> string" where
  "decimal n = (if n < 10 then [digit n] else decimal (n div 10) @ [digit (n mod 10)])"

declare decimal.simps [simp del]

definition fmt_d :: "int \<Rightarrow> string" where
  "fmt_d i = (if i < 0 then CHR ''-'' # decimal (nat (- i)) else decimal (nat i))"

definition minCapacityError :: "int \<Rightarrow> wrapError" where
  "minCapacityError cap =
     \<lparr>msg = ErrInvalidCapacity @ '': must be >='' @ fmt_d MinimumCapacity @ '' but '' @
             fmt_d cap @ '' was requested'',
      wrapped = ErrInvalidCapacity\<rparr>"

subsection \<open>float64 arithmetic\<close>

text \<open>
  \<open>New\<close> computes its initial cold target in float64. A finite float64 value is a rational
  \<open>m * 2 ^ e\<close> with an integer \<open>m\<close> of at most 53 bits, and every float64 operation returns
  the exact result rounded to the nearest such value, a tie going to the even \<open>m\<close>.
  \<open>nearest64\<close> is that rounding: \<open>ilog2 \<bar>x\<bar>\<close> is the binary exponent \<open>\<lfloor>log\<^sub>2 \<bar>x\<bar>\<rfloor>\<close>, so
  \<open>x / 2 ^ (ilog2 \<bar>x\<bar> - 52)\<close> has 53 bits before the point, and \<open>round_even\<close> rounds it to
  an integer. The limits of the exponent are left out: the values of \<open>New\<close> lie between
  \<open>2 ^ - 7\<close> and \<open>2 ^ 64\<close>, far from overflow and from the subnormal numbers.
  \<open>float64\<close> is the conversion of an \<open>int\<close>, \<open>fmul\<close> the product, \<open>trunc\<close> the conversion
  \<open>int(...)\<close> of a float64, which drops the fraction.
\<close>

definition pow2 :: "int \<Rightarrow> rat" where
  "pow2 e = (if 0 \<le> e then 2 ^ nat e else 1 / 2 ^ nat (- e))"

definition round_even :: "rat \<Rightarrow> int" where
  "round_even y =
     (let f = \<lfloor>y\<rfloor>; d = y - of_int f
      in if d < 1 / 2 then f else if 1 / 2 < d then f + 1 else if even f then f else f + 1)"

definition ilog2 :: "rat \<Rightarrow> int" where
  "ilog2 x = (if 1 \<le> x then bitlen \<lfloor>x\<rfloor> - 1 else - bitlen (\<lceil>1 / x\<rceil> - 1))"

definition nearest64 :: "rat \<Rightarrow> rat" where
  "nearest64 x =
     (if x = 0 then 0
      else (let e = ilog2 \<bar>x\<bar> - 52 in of_int (round_even (x / pow2 e)) * pow2 e))"

definition float64 :: "int \<Rightarrow> rat" where
  "float64 i = nearest64 (of_int i)"

definition fmul :: "rat \<Rightarrow> rat \<Rightarrow> rat" where
  "fmul x y = nearest64 (x * y)"

definition trunc :: "rat \<Rightarrow> int" where
  "trunc x = (if 0 \<le> x then \<lfloor>x\<rfloor> else \<lceil>x\<rceil>)"

subsection \<open>The constructor\<close>

text \<open>
  \<open>New\<close>. The untyped constant \<open>0.01\<close> becomes the float64 nearest to \<open>1 / 100\<close> where it
  meets \<open>float64(capacity)\<close>; the product is a float64 product, \<open>max\<close> compares two float64
  values and \<open>int(coldInitial)\<close> truncates. The map's size hint has no effect on behaviour.
\<close>

definition minimumColdRatio :: rat where
  "minimumColdRatio = nearest64 (1 / 100)"

definition New :: "int \<Rightarrow> wrapError + ('k, 'v) cache" where
  "New cap =
     (if cap < MinimumCapacity then Inl (minCapacityError cap)
      else (let coldInitial = max (fmul (float64 cap) minimumColdRatio) 1;
                coldTarget' = min (trunc coldInitial) (cap sdiv 2);
                hotTarget' = cap - coldTarget'
            in Inr \<lparr>index = [], hot = None, cold = None, test = None, lru = None,
                     capacity = cap, coldTarget = coldTarget', hotTarget = hotTarget',
                     coldCount = 0, hotCount = 0, testCount = 0, demotions = 0,
                     pages = []\<rparr>))"

section \<open>Runs of public operations\<close>

text \<open>
  A call of a public operation, with the iteration budget it is run under. \<open>Keys\<close> and
  \<open>Len\<close> read the cache and leave it as it is.
\<close>

datatype ('k, 'v) call =
    CallGet 'k
  | CallSet 'k 'v
  | CallLoad 'k "'v \<times> string option"
  | CallLen
  | CallKeys

fun exec :: "nat \<Rightarrow> ('k, 'v::zero) cache \<Rightarrow> ('k, 'v) call \<Rightarrow> fault + ('k, 'v) cache" where
  "exec n c (CallGet key) = Inr (fst (Get c key))"
| "exec n c (CallSet key val) = Set n c key val"
| "exec n c (CallLoad key fetch) = seq (Load n c key fetch) (\<lambda>r. Inr (fst r))"
| "exec n c CallLen = Inr c"
| "exec n c CallKeys = Inr c"

fun run :: "nat \<Rightarrow> ('k, 'v::zero) cache \<Rightarrow> ('k, 'v) call list \<Rightarrow> fault + ('k, 'v) cache" where
  "run n c [] = Inr c"
| "run n c (x # xs) = seq (exec n c x) (\<lambda>c'. run n c' xs)"

section \<open>Notions used in the statements\<close>

text \<open>
  The cache that \<open>New cap\<close> followed by the calls \<open>xs\<close> leaves behind, when the constructor
  succeeds and every call returns (each call is run under a budget of 100 iterations per loop).
\<close>

definition scenario :: "int \<Rightarrow> ('k, 'v::zero) call list \<Rightarrow> ('k, 'v) cache option" where
  "scenario cap xs =
     (case New cap of
        Inl _ \<Rightarrow> None
      | Inr c0 \<Rightarrow> (case run 100 c0 xs of Inl _ \<Rightarrow> None | Inr c \<Rightarrow> Some c))"

text \<open>The states a cache of capacity \<open>cap\<close> can be in after any number of public calls
  that returned, each under any budget.\<close>

inductive reachable :: "int \<Rightarrow> ('k, 'v::zero) cache \<Rightarrow> bool" for cap where
  reach_New: "New cap = Inr c \<Longrightarrow> reachable cap c"
| reach_exec: "reachable cap c \<Longrightarrow> exec n c x = Inr c' \<Longrightarrow> reachable cap c'"

text \<open>\<open>later c c'\<close>: \<open>c'\<close> is \<open>c\<close> after zero or more further public calls that returned.\<close>

inductive later :: "('k, 'v::zero) cache \<Rightarrow> ('k, 'v) cache \<Rightarrow> bool" for c where
  later_now: "later c c"
| later_exec: "later c c1 \<Longrightarrow> exec n c1 x = Inr c2 \<Longrightarrow> later c c2"

text \<open>The keys whose index entry is a resident page, in index order.\<close>

definition residentKeys :: "('k, 'v) cache \<Rightarrow> 'k list" where
  "residentKeys c = map fst (filter (\<lambda>(k, p). Resident (pg c p)) (index c))"

text \<open>A key is a ghost when the index maps it to a page that is not resident.\<close>

definition isGhost :: "('k, 'v) cache \<Rightarrow> 'k \<Rightarrow> bool" where
  "isGhost c key = (case map_of (index c) key of None \<Rightarrow> False | Some p \<Rightarrow> \<not> Resident (pg c p))"

text \<open>
  The pages linked in the ring, as \<open>ring.Do\<close> enumerates them from the LRU pointer:
  the page itself, then \<open>next\<close> until the start comes round again. A page whose \<open>next\<close> is
  still nil is a ring of one element.
\<close>

fun ring_walk :: "('k, 'v) heap \<Rightarrow> nat \<Rightarrow> nat \<Rightarrow> nat \<Rightarrow> nat list" where
  "ring_walk h start p 0 = [p]"
| "ring_walk h start p (Suc n) =
     p # (case rnext (h ! p) of
            None \<Rightarrow> []
          | Some q \<Rightarrow> if q = start then [] else ring_walk h start q n)"

definition ring :: "('k, 'v) cache \<Rightarrow> nat list" where
  "ring c = (case lru c of None \<Rightarrow> [] | Some l \<Rightarrow> ring_walk (pages c) l l (length (pages c)))"

text \<open>Invariant I4, in its two halves.\<close>

definition residentsIndexed :: "('k, 'v) cache \<Rightarrow> bool" where
  "residentsIndexed c =
     list_all (\<lambda>p. if Resident (pg c p) then map_of (index c) (Name (pg c p)) = Some p
                    else True)
       [0 ..< length (pages c)]"

definition indexInRing :: "('k, 'v) cache \<Rightarrow> bool" where
  "indexInRing c = list_all (\<lambda>(k, p). p \<in> set (ring c)) (index c)"

text \<open>The number of ring pages whose \<open>Demoted\<close> flag is set.\<close>

definition demotedInRing :: "('k, 'v) cache \<Rightarrow> int" where
  "demotedInRing c = int (length (filter (\<lambda>p. Demoted (pg c p)) (ring c)))"

text \<open>The targets as invariant I3 wants them.\<close>

definition targets_ok :: "('k, 'v) cache \<Rightarrow> bool" where
  "targets_ok c = (1 \<le> coldTarget c \<and> coldTarget c \<le> capacity c div 2 \<and>
                   hotTarget c = capacity c - coldTarget c)"

text \<open>
  What the parts of a miss do to the counters. \<open>counts_kept\<close>: the residents keep their number,
  the ghosts do not grow; \<open>evicted\<close>: one resident less, at most one ghost more;
  \<open>inserted\<close>: one resident more, and the metadata bound re-established;
  \<open>step_counts\<close>: what one public call may do.
\<close>

definition counts_kept :: "('k, 'v) cache \<Rightarrow> ('k, 'v) cache \<Rightarrow> bool" where
  "counts_kept c c' =
     (capacity c' = capacity c \<and>
      hotCount c' + coldCount c' = hotCount c + coldCount c \<and>
      testCount c' \<le> testCount c \<and>
      (2 \<le> capacity c \<longrightarrow> targets_ok c \<longrightarrow> targets_ok c'))"

definition evicted :: "('k, 'v) cache \<Rightarrow> ('k, 'v) cache \<Rightarrow> bool" where
  "evicted c c' =
     (capacity c' = capacity c \<and>
      hotCount c' + coldCount c' = hotCount c + coldCount c - 1 \<and>
      testCount c' \<le> testCount c + 1 \<and>
      (2 \<le> capacity c \<longrightarrow> targets_ok c \<longrightarrow> targets_ok c'))"

definition inserted :: "('k, 'v) cache \<Rightarrow> ('k, 'v) cache \<Rightarrow> bool" where
  "inserted c c' =
     (capacity c' = capacity c \<and>
      hotCount c' + coldCount c' = hotCount c + coldCount c + 1 \<and>
      coldCount c' + hotCount c' + testCount c' \<le> wrap64 (capacity c * 2) \<and>
      (2 \<le> capacity c \<longrightarrow> targets_ok c \<longrightarrow> targets_ok c'))"

definition step_counts :: "('k, 'v) cache \<Rightarrow> ('k, 'v) cache \<Rightarrow> bool" where
  "step_counts c c' =
     (capacity c' = capacity c \<and>
      (targets_ok c \<longrightarrow> targets_ok c') \<and>
      (hotCount c' + coldCount c' = hotCount c + coldCount c \<or>
       hotCount c + coldCount c \<noteq> capacity c \<and>
       hotCount c' + coldCount c' = hotCount c + coldCount c + 1) \<and>
      (hotCount c' + coldCount c' + testCount c' \<le> hotCount c + coldCount c + testCount c \<or>
       hotCount c' + coldCount c' + testCount c' \<le> 2 * capacity c))"

section \<open>What each part of a call does to the counters and targets\<close>

lemma upd_fields [simp]:
  "index (upd c p f) = index c" "hot (upd c p f) = hot c" "cold (upd c p f) = cold c"
  "test (upd c p f) = test c" "lru (upd c p f) = lru c" "capacity (upd c p f) = capacity c"
  "coldTarget (upd c p f) = coldTarget c" "hotTarget (upd c p f) = hotTarget c"
  "coldCount (upd c p f) = coldCount c" "hotCount (upd c p f) = hotCount c"
  "testCount (upd c p f) = testCount c" "demotions (upd c p f) = demotions c"
  by (simp_all add: upd_def)

lemma seq_Inr: "seq m f = Inr y \<longleftrightarrow> (\<exists>x. m = Inr x \<and> f x = Inr y)"
  by (cases m) (simp_all add: seq_def)

lemma counts_kept_refl [simp]: "counts_kept c c"
  by (simp add: counts_kept_def)

lemma counts_kept_trans: "counts_kept a b \<Longrightarrow> counts_kept b c \<Longrightarrow> counts_kept a c"
  by (auto simp: counts_kept_def)

lemma counts_kept_pages [simp]: "counts_kept c (c'\<lparr>pages := h\<rparr>) = counts_kept c c'"
  "counts_kept (c\<lparr>pages := h\<rparr>) c' = counts_kept c c'"
  by (simp_all add: counts_kept_def targets_ok_def)

lemma counts_kept_upd [simp]: "counts_kept c (upd c' p f) = counts_kept c c'"
  "counts_kept (upd c p f) c' = counts_kept c c'"
  by (simp_all add: upd_def)

lemma counts_kept_hands [simp]:
  "counts_kept c (c'\<lparr>test := t\<rparr>) = counts_kept c c'"
  "counts_kept c (c'\<lparr>hot := t\<rparr>) = counts_kept c c'"
  "counts_kept c (c'\<lparr>cold := t\<rparr>) = counts_kept c c'"
  "counts_kept c (c'\<lparr>lru := t\<rparr>) = counts_kept c c'"
  "counts_kept c (c'\<lparr>index := i\<rparr>) = counts_kept c c'"
  "counts_kept c (c'\<lparr>demotions := d\<rparr>) = counts_kept c c'"
  "counts_kept (c\<lparr>test := t\<rparr>) c' = counts_kept c c'"
  "counts_kept (c\<lparr>hot := t\<rparr>) c' = counts_kept c c'"
  "counts_kept (c\<lparr>cold := t\<rparr>) c' = counts_kept c c'"
  "counts_kept (c\<lparr>lru := t\<rparr>) c' = counts_kept c c'"
  "counts_kept (c\<lparr>index := i\<rparr>) c' = counts_kept c c'"
  "counts_kept (c\<lparr>demotions := d\<rparr>) c' = counts_kept c c'"
  by (simp_all add: counts_kept_def targets_ok_def)

lemma sweepTest_loop_kept: "sweepTest_loop n c hand = Inr c' \<Longrightarrow> counts_kept c c'"
proof (induction n arbitrary: c hand)
  case 0
  then show ?case by simp
next
  case (Suc n)
  then show ?case
    by (auto split: if_splits prod.splits dest!: Suc.IH)
qed

lemma sweepTest_kept: "sweepTest n c = Inr c' \<Longrightarrow> counts_kept c c'"
  by (auto simp: sweepTest_def split: if_splits option.splits dest!: sweepTest_loop_kept)

lemma sdiv2: "2 \<le> (a::int) \<Longrightarrow> a sdiv 2 = a div 2"
  by (simp add: signed_divide_int_def sgn_if)

lemma adjust_kept: "counts_kept c (adjustColdTarget c d)"
  by (auto simp: counts_kept_def adjustColdTarget_def Let_def targets_ok_def sdiv2)

lemma removeTest_kept: "removeTest n c t = Inr c' \<Longrightarrow> counts_kept c c'"
  apply (auto simp: removeTest_def Let_def seq_Inr split: if_splits option.splits prod.splits dest!: sweepTest_kept)
  apply (auto simp: counts_kept_def targets_ok_def)
  done


lemma decrease_kept: "decreaseColdTarget c = Inr c' \<Longrightarrow> counts_kept c c'"
  by (auto simp: decreaseColdTarget_def seq_Inr adjust_kept)

lemma increase_kept: "increaseColdTarget c = Inr c' \<Longrightarrow> counts_kept c c'"
  by (auto simp: increaseColdTarget_def seq_Inr adjust_kept)

lemma handleHotLIR_kept [simp]:
  "counts_kept c (handleHotLIR c' p) = counts_kept c c'"
  "counts_kept (handleHotLIR c p) c' = counts_kept c c'"
  by (simp_all add: handleHotLIR_def)

lemma handleHotHIR_kept: "handleHotHIR n c p nx = Inr c' \<Longrightarrow> counts_kept c c'"
  by (auto simp: handleHotHIR_def Let_def seq_Inr split: if_splits
           dest!: removeTest_kept decrease_kept)

lemma sweepHot_loop_kept: "sweepHot_loop n c p = Inr c' \<Longrightarrow> counts_kept c c'"
proof (induction n arbitrary: c p)
  case 0
  then show ?case by simp
next
  case (Suc n)
  then show ?case
    by (auto simp: Let_def seq_Inr split: if_splits prod.splits
             dest!: Suc.IH handleHotHIR_kept intro: counts_kept_trans)
qed

lemma sweepHot_kept: "sweepHot n c = Inr c' \<Longrightarrow> counts_kept c c'"
  by (auto simp: sweepHot_def split: if_splits option.splits dest!: sweepHot_loop_kept)

lemma moveToLRU_kept: "moveToLRU c p = Inr c' \<Longrightarrow> counts_kept c c'"
  by (auto simp: moveToLRU_def seq_Inr split: if_splits option.splits prod.splits)

lemma demoteHot_kept: "demoteHot n c = Inr c' \<Longrightarrow> counts_kept c c'"
  apply (auto simp: demoteHot_def Let_def seq_Inr split: option.splits prod.splits
           dest!: moveToLRU_kept sweepHot_kept)
  apply (auto simp: counts_kept_def targets_ok_def upd_def)
  done

lemma promoteCold_loop_kept: "promoteCold_loop n c = Inr c' \<Longrightarrow> counts_kept c c'"
proof (induction n arbitrary: c)
  case 0
  then show ?case by simp
next
  case (Suc n)
  then show ?case
    by (auto simp: seq_Inr split: if_splits dest!: Suc.IH demoteHot_kept intro: counts_kept_trans)
qed

lemma promoteCold_kept: "promoteCold n c p = Inr c' \<Longrightarrow> counts_kept c c'"
  apply (auto simp: promoteCold_def Let_def seq_Inr dest!: moveToLRU_kept promoteCold_loop_kept)
  apply (auto simp: counts_kept_def targets_ok_def upd_def)
  done

lemma handleReferencedCold_kept: "handleReferencedCold n c p = Inr c' \<Longrightarrow> counts_kept c c'"
  by (auto simp: handleReferencedCold_def Let_def seq_Inr split: if_splits
           dest!: promoteCold_kept moveToLRU_kept decrease_kept intro: counts_kept_trans)

lemma sweepCold_loop_kept: "sweepCold_loop n c p = Inr c' \<Longrightarrow> counts_kept c c'"
proof (induction n arbitrary: c p)
  case 0
  then show ?case by simp
next
  case (Suc n)
  then show ?case
    by (auto simp: Let_def seq_Inr split: if_splits prod.splits
             dest!: Suc.IH handleReferencedCold_kept intro: counts_kept_trans)
qed

lemma sweepCold_kept: "sweepCold n c = Inr c' \<Longrightarrow> counts_kept c c'"
  by (auto simp: sweepCold_def split: if_splits option.splits dest!: sweepCold_loop_kept)

lemma pruneTest_loop_kept:
  "pruneTest_loop n bound c = Inr c' \<Longrightarrow>
     counts_kept c c' \<and> coldCount c' + hotCount c' + testCount c' \<le> bound"
proof (induction n arbitrary: c)
  case 0
  then show ?case by simp
next
  case (Suc n)
  then show ?case
    by (auto simp: seq_Inr split: if_splits option.splits
             dest!: Suc.IH removeTest_kept intro: counts_kept_trans)
qed


lemma pruneTest_kept:
  "pruneTest n c = Inr c' \<Longrightarrow>
     counts_kept c c' \<and> coldCount c' + hotCount c' + testCount c' \<le> wrap64 (capacity c * 2)"
  by (auto simp: pruneTest_def dest!: pruneTest_loop_kept)

lemma wrap64_le: "0 \<le> x \<Longrightarrow> wrap64 x \<le> x"
proof -
  assume "0 \<le> x"
  then have "(x + 2 ^ 63) mod 2 ^ 64 \<le> x + (2 ^ 63 :: int)"
    by (intro zmod_le_nonneg_dividend) simp
  then show ?thesis by (simp add: wrap64_def)
qed

lemma evictCold_evicted: "evictCold n c = Inr c' \<Longrightarrow> evicted c c'"
  apply (auto simp: evictCold_def Let_def split: option.splits prod.splits if_splits
           dest!: removeTest_kept)
  apply (auto simp: evicted_def counts_kept_def targets_ok_def upd_def)
  done


lemma addToClock_kept: "addToClock c p = Inr c' \<Longrightarrow> counts_kept c c'"
  by (auto simp: addToClock_def seq_Inr split: option.splits prod.splits)

lemma addNew_inserted:
  assumes "addNew n c key val = Inr c'"
  shows "inserted c c'"
proof -
  define lowIRR where "lowIRR = (coldCount c = 0 \<and> hotCount c < hotTarget c)"
  define c1 where "c1 = c\<lparr>pages := pages c @
      [\<lparr>rnext = None, rprev = None, Value = val, Name = key, LIR = lowIRR,
        Resident = True, Demoted = False, Referenced = False, Stacked = True\<rparr>]\<rparr>"
  from assms obtain c2 c4 where
    c2: "addToClock c1 (length (pages c)) = Inr c2" and
    c4: "sweepCold n
           (if lowIRR then c2\<lparr>hotCount := hotCount c2 + 1\<rparr>
            else (if cold c2 = None then c2\<lparr>cold := Some (length (pages c))\<rparr> else c2)
                   \<lparr>coldCount :=
                      coldCount (if cold c2 = None then c2\<lparr>cold := Some (length (pages c))\<rparr>
                                 else c2) + 1\<rparr>) = Inr c4" and
    c5: "pruneTest n c4 = Inr c'"
    unfolding addNew_def Let_def seq_Inr lowIRR_def c1_def
    by blast
  let ?c3 = "if lowIRR then c2\<lparr>hotCount := hotCount c2 + 1\<rparr>
            else (if cold c2 = None then c2\<lparr>cold := Some (length (pages c))\<rparr> else c2)
                   \<lparr>coldCount :=
                      coldCount (if cold c2 = None then c2\<lparr>cold := Some (length (pages c))\<rparr>
                                 else c2) + 1\<rparr>"
  have "counts_kept c1 c2" using c2 by (rule addToClock_kept)
  then have a: "counts_kept c c2" by (simp add: c1_def)
  then have b: "capacity ?c3 = capacity c \<and>
      hotCount ?c3 + coldCount ?c3 = hotCount c + coldCount c + 1 \<and>
      (2 \<le> capacity c \<longrightarrow> targets_ok c \<longrightarrow> targets_ok ?c3)"
    by (auto simp: counts_kept_def targets_ok_def)
  have d: "counts_kept ?c3 c4" using c4 by (rule sweepCold_kept)
  have e: "counts_kept c4 c' \<and>
      coldCount c' + hotCount c' + testCount c' \<le> wrap64 (capacity c4 * 2)"
    using c5 by (rule pruneTest_kept)
  have f: "counts_kept ?c3 c'" using d e by (blast intro: counts_kept_trans)
  show ?thesis
    unfolding inserted_def
    using b e f unfolding counts_kept_def by (elim conjE) (intro conjI; simp)
qed

lemma promoteTest_kept:
  assumes "promoteTest n c p val = Inr c'"
  shows "counts_kept c c'"
proof -
  define c4 where "c4 = (\<lambda>c2::('a, 'b) cache.
     (upd c2 p (\<lambda>x. x\<lparr>Value := val, Resident := True\<rparr>))
        \<lparr>testCount := testCount (upd c2 p (\<lambda>x. x\<lparr>Value := val, Resident := True\<rparr>)) - 1,
         coldCount := coldCount (upd c2 p (\<lambda>x. x\<lparr>Value := val, Resident := True\<rparr>)) + 1\<rparr>)"
  from assms obtain c1 c2 c5 c6 where
    c1: "increaseColdTarget c = Inr c1" and
    c2: "evictCold n c1 = Inr c2" and
    c5: "(if Some p = test (c4 c2) then sweepTest n (c4 c2) else Inr (c4 c2)) = Inr c5" and
    c6: "promoteCold n c5 p = Inr c6" and
    c7: "sweepCold n c6 = Inr c'"
    unfolding promoteTest_def Let_def seq_Inr c4_def by blast
  have a: "counts_kept c c1" using c1 by (rule increase_kept)
  have b: "evicted c1 c2" using c2 by (rule evictCold_evicted)
  have "counts_kept c1 (c4 c2)"
    using b by (auto simp: evicted_def counts_kept_def targets_ok_def c4_def)
  moreover have "counts_kept (c4 c2) c5"
    using c5 by (auto split: if_splits dest: sweepTest_kept)
  ultimately have d: "counts_kept c1 c5" by (rule counts_kept_trans)
  have e: "counts_kept c5 c'"
    using promoteCold_kept [OF c6] sweepCold_kept [OF c7] by (rule counts_kept_trans)
  show ?thesis
    using a d e by (blast intro: counts_kept_trans)
qed

lemma handleMiss_step:
  assumes "2 \<le> capacity c" and "handleMiss n c key val had = Inr c'"
  shows "step_counts c c'"
proof -
  from assms(2) obtain c1 c2 where
    c1: "sweepHot n c = Inr c1" and c2: "sweepCold n c1 = Inr c2" and
    rest: "(case (if had then map_of (index c2) key else None) of
              Some tst \<Rightarrow> promoteTest n c2 tst val
            | None \<Rightarrow> seq (if atCapacity c2 then evictCold n c2 else Inr c2)
                          (\<lambda>c3. addNew n c3 key val)) = Inr c'"
    by (auto simp: handleMiss_def seq_Inr)
  have k2: "counts_kept c c2"
    using sweepHot_kept [OF c1] sweepCold_kept [OF c2] by (rule counts_kept_trans)
  show ?thesis
  proof (cases "if had then map_of (index c2) key else None")
    case (Some tst)
    with rest have "counts_kept c2 c'" by (simp add: promoteTest_kept)
    with k2 have "counts_kept c c'" by (rule counts_kept_trans)
    with assms(1) show ?thesis by (auto simp: step_counts_def counts_kept_def)
  next
    case None
    with rest obtain c3 where
      c3: "(if atCapacity c2 then evictCold n c2 else Inr c2) = Inr c3" and
      c4: "addNew n c3 key val = Inr c'"
      by (auto simp: seq_Inr)
    have ins: "inserted c3 c'" using c4 by (rule addNew_inserted)
    show ?thesis
    proof (cases "atCapacity c2")
      case True
      with c3 have "evicted c2 c3" by (simp add: evictCold_evicted)
      with ins k2 True assms(1) wrap64_le [of "capacity c * 2"] show ?thesis
        by (auto simp: step_counts_def counts_kept_def evicted_def inserted_def atCapacity_def)
    next
      case False
      with c3 have "c3 = c2" by simp
      with ins k2 False assms(1) wrap64_le [of "capacity c * 2"] show ?thesis
        by (auto simp: step_counts_def counts_kept_def inserted_def atCapacity_def)
    qed
  qed
qed

lemma step_counts_refl [simp]: "step_counts c c"
  by (simp add: step_counts_def)

lemma step_counts_upd [simp]: "step_counts c (upd c p f)"
  by (simp add: step_counts_def upd_def targets_ok_def)

lemma Get_step: "step_counts c (fst (Get c key))"
  by (simp add: Get_def split: option.splits)

lemma Set_step: 
  assumes "2 \<le> capacity c" and "Set n c key val = Inr c'" shows "step_counts c c'"
proof (cases "map_of (index c) key")
  case None
  with assms show ?thesis by (simp add: Set_def handleMiss_step)
next
  case (Some p)
  with assms show ?thesis by (cases "Resident (pg c p)") (auto simp add: Set_def handleMiss_step)
qed

lemma Load_step: 
  assumes "2 \<le> capacity c" and "Load n c key fetch = Inr r" shows "step_counts c (fst r)"
proof (cases "snd (snd (Get c key))")
  case True
  with assms(2) have "fst r = fst (Get c key)"
    by (auto simp: Load_def split: prod.splits)
  then show ?thesis by (simp add: Get_step)
next
  case False
  then have g: "Get c key = (c, 0, False)"
    by (auto simp: Get_def split: option.splits if_splits)
  show ?thesis
  proof (cases "snd fetch")
    case None
    with g assms(2) have "handleMiss n c key (fst fetch) False = Inr (fst r)"
      by (cases fetch) (auto simp: Load_def seq_Inr)
    with assms(1) show ?thesis by (rule handleMiss_step)
  next
    case (Some e)
    with g assms(2) have "fst r = c"
      by (cases fetch) (auto simp: Load_def)
    then show ?thesis by simp
  qed
qed

lemma exec_step: 
  assumes "2 \<le> capacity c" and "exec n c x = Inr c'" shows "step_counts c c'"
proof (cases x)
  case (CallGet k)
  with assms(2) show ?thesis by (auto simp: Get_step)
next
  case (CallSet k v)
  with assms show ?thesis by (simp add: Set_step)
next
  case (CallLoad k f)
  with assms(2) obtain r where "Load n c k f = Inr r" and "c' = fst r"
    by (auto simp: seq_Inr)
  with assms(1) show ?thesis by (simp add: Load_step)
next
  case CallLen
  with assms(2) show ?thesis by auto
next
  case CallKeys
  with assms(2) show ?thesis by auto
qed

section \<open>Construction\<close>

lemma fmt_d_MinimumCapacity: "fmt_d MinimumCapacity = ''2''"
  by (simp add: fmt_d_def MinimumCapacity_def decimal.simps digit_def)

subsection \<open>Rounding to float64\<close>

lemma pow2_pos: "0 < pow2 e"
  by (simp add: pow2_def)

lemma pow2_mono: "a \<le> b \<Longrightarrow> pow2 a \<le> pow2 b"
  unfolding pow2_def
  by (auto simp: field_simps intro!: power_increasing
      simp flip: power_add) 

lemma round_even_int: "round_even (of_int n) = n"
  by (simp add: round_even_def)

lemma round_even_le: "of_int (round_even y) \<le> y + 1 / 2"
  unfolding round_even_def Let_def by (auto; linarith)

lemma round_even_ge: "of_int n \<le> y \<Longrightarrow> n \<le> round_even y"
  unfolding round_even_def Let_def by (auto simp: le_floor_iff; linarith)

lemma ilog2_less: "0 < x \<Longrightarrow> x < 2 ^ w \<Longrightarrow> ilog2 x < int w"
proof (cases "1 \<le> x")
  case True
  assume "x < 2 ^ w"
  then have "\<lfloor>x\<rfloor> < 2 ^ w" by (simp add: floor_less_iff)
  then have "bitlen \<lfloor>x\<rfloor> \<le> int w" by (simp add: bitlen_le_iff_power)
  with True show ?thesis by (simp add: ilog2_def)
next
  case False
  assume "0 < x"
  with False have "1 < 1 / x" by simp
  then have "1 < \<lceil>1 / x\<rceil>" by (simp add: less_ceiling_iff)
  then have "bitlen (\<lceil>1 / x\<rceil> - 1) \<noteq> 0" by (simp add: bitlen_eq_zero_iff)
  moreover have "0 \<le> bitlen (\<lceil>1 / x\<rceil> - 1)" by (rule bitlen_nonneg)
  ultimately show ?thesis using False by (simp add: ilog2_def)
qed

lemma nearest64_exact:
  assumes n: "0 < n" "n < 2 ^ 53"
  shows "float64 n = of_int n"
proof -
  define e where "e = ilog2 \<bar>rat_of_int n\<bar> - 52"
  have "rat_of_int n < rat_of_int (2 ^ 53)" using n by (simp only: of_int_less_iff)
  then have "rat_of_int n < 2 ^ 53" by simp
  then have "ilog2 \<bar>rat_of_int n\<bar> < int 53"
    using n by (intro ilog2_less) simp_all
  then have e: "e \<le> 0" by (simp add: e_def)
  then have p: "pow2 e = 1 / 2 ^ nat (- e)" by (cases "e = 0") (simp_all add: pow2_def)
  have "rat_of_int n / pow2 e = of_int (n * 2 ^ nat (- e))" by (simp add: p)
  then have "round_even (rat_of_int n / pow2 e) = n * 2 ^ nat (- e)"
    by (simp only: round_even_int)
  then have "of_int (round_even (rat_of_int n / pow2 e)) * pow2 e = rat_of_int n"
    by (simp add: p)
  with n show ?thesis by (simp add: float64_def nearest64_def Let_def e_def)
qed

lemma nearest64_bounds:
  assumes x: "0 < x" "x < 2 ^ 47"
  shows "nearest64 x \<le> x + 1 / 128" and "of_int k \<le> x \<Longrightarrow> of_int k \<le> nearest64 x"
proof -
  define e where "e = ilog2 \<bar>x\<bar> - 52"
  have "ilog2 \<bar>x\<bar> < int 47" using x by (intro ilog2_less) simp_all
  then have e: "e \<le> - 6" by (simp add: e_def)
  then have p: "pow2 e = 1 / 2 ^ nat (- e)" by (simp add: pow2_def)
  have n: "nearest64 x = of_int (round_even (x / pow2 e)) * pow2 e"
    using x by (simp add: nearest64_def Let_def e_def)
  have "pow2 e \<le> pow2 (- 6)" using e by (rule pow2_mono)
  then have le: "pow2 e \<le> 1 / 64" by (simp add: pow2_def)
  have "of_int (round_even (x / pow2 e)) * pow2 e \<le> (x / pow2 e + 1 / 2) * pow2 e"
    using round_even_le [of "x / pow2 e"] pow2_pos [of e]
    by (simp only: mult_le_cancel_right_pos)
  also have "\<dots> = x + pow2 e / 2" using pow2_pos [of e] by (simp add: field_simps)
  also have "\<dots> \<le> x + 1 / 128" using le by simp
  finally show "nearest64 x \<le> x + 1 / 128" by (simp add: n)
  assume k: "of_int k \<le> x"
  have "of_int (k * 2 ^ nat (- e)) = of_int k / pow2 e" by (simp add: p)
  also have "\<dots> \<le> x / pow2 e" using k pow2_pos [of e] by (simp add: divide_right_mono)
  finally have "k * 2 ^ nat (- e) \<le> round_even (x / pow2 e)" by (rule round_even_ge)
  then have "rat_of_int (k * 2 ^ nat (- e)) \<le> of_int (round_even (x / pow2 e))"
    by (simp only: of_int_le_iff)
  then have "rat_of_int (k * 2 ^ nat (- e)) * pow2 e \<le> of_int (round_even (x / pow2 e)) * pow2 e"
    using pow2_pos [of e] by (simp only: mult_le_cancel_right_pos)
  then show "of_int k \<le> nearest64 x" by (simp add: n p)
qed

lemma minimumColdRatio_value: "minimumColdRatio = 5764607523034235 / 2 ^ 59"
  by code_simp

lemma coldInitial_trunc:
  assumes c: "2 \<le> cap" "cap < 2 ^ 53"
  shows "trunc (max (fmul (float64 cap) minimumColdRatio) 1) = max (cap div 100) 1"
proof -
  define x where "x = rat_of_int cap * (5764607523034235 / 2 ^ 59)"
  define k where "k = cap div 100"
  have f: "fmul (float64 cap) minimumColdRatio = nearest64 x"
    using c by (simp add: fmul_def nearest64_exact minimumColdRatio_value x_def)
  have "rat_of_int cap < rat_of_int (2 ^ 53)" "rat_of_int 2 \<le> rat_of_int cap"
    using c by (simp_all only: of_int_less_iff of_int_le_iff)
  then have capr: "rat_of_int cap < 2 ^ 53" "2 \<le> rat_of_int cap" by simp_all
  have x0: "0 < x" and x47: "x < 2 ^ 47" using capr by (simp_all add: x_def)
  have "cap = 100 * k + cap mod 100" by (simp add: k_def)
  moreover have "0 \<le> cap mod 100" "cap mod 100 < 100" by simp_all
  ultimately have kb: "100 * k \<le> cap" "cap \<le> 100 * k + 99" "0 \<le> k" using c by linarith+
  then have "rat_of_int (100 * k) \<le> rat_of_int cap" "rat_of_int cap \<le> rat_of_int (100 * k + 99)"
    by (simp_all only: of_int_le_iff)
  then have kr: "100 * rat_of_int k \<le> rat_of_int cap" "rat_of_int cap \<le> 100 * rat_of_int k + 99"
    by simp_all
  have lo: "of_int k \<le> x" using kr capr by (simp add: x_def)
  have hi: "x + 1 / 128 < of_int k + 1" using kr capr by (simp add: x_def)
  have 1: "of_int k \<le> nearest64 x" using nearest64_bounds(2) [OF x0 x47 lo] .
  have 2: "nearest64 x < of_int k + 1" using nearest64_bounds(1) [OF x0 x47] hi by linarith
  show ?thesis
  proof (cases "k = 0")
    case True
    with 2 have b: "max (nearest64 x) 1 < 2" "1 \<le> max (nearest64 x) 1" by simp_all
    then have "\<lfloor>max (nearest64 x) 1\<rfloor> = 1" by (simp add: floor_eq_iff)
    moreover from b have "0 \<le> max (nearest64 x) 1" by linarith
    ultimately show ?thesis using True by (simp add: f trunc_def k_def [symmetric])
  next
    case False
    with kb have k1: "1 \<le> k" by simp
    then have "1 \<le> rat_of_int k" by simp
    with 1 have m: "max (nearest64 x) 1 = nearest64 x" by simp
    have "\<lfloor>nearest64 x\<rfloor> = k" using 1 2 by (simp add: floor_eq_iff)
    moreover have "0 \<le> nearest64 x" using 1 \<open>1 \<le> rat_of_int k\<close> by linarith
    ultimately show ?thesis using k1 m by (simp add: f trunc_def k_def [symmetric])
  qed
qed

lemma trunc_max_ge: "1 \<le> trunc (max y 1)"
proof -
  have "1 \<le> \<lfloor>max y 1\<rfloor>" by (simp add: le_floor_iff)
  moreover have "0 \<le> max y 1" by simp
  ultimately show ?thesis by (simp only: trunc_def if_True)
qed

subsection \<open>The constructor\<close>

lemma New_Inr:
  "2 \<le> cap \<Longrightarrow>
   New cap = Inr \<lparr>index = [], hot = None, cold = None, test = None, lru = None,
                 capacity = cap,
                 coldTarget = min (trunc (max (fmul (float64 cap) minimumColdRatio) 1)) (cap div 2),
                 hotTarget = cap - min (trunc (max (fmul (float64 cap) minimumColdRatio) 1)) (cap div 2),
                 coldCount = 0, hotCount = 0, testCount = 0, demotions = 0, pages = []\<rparr>"
  by (simp add: New_def MinimumCapacity_def Let_def sdiv2)

lemma New_Inl:
  "cap < 2 \<Longrightarrow>
   New cap = Inl \<lparr>msg = ''invalid capacity: must be >=2 but '' @ fmt_d cap @ '' was requested'',
                 wrapped = ErrInvalidCapacity\<rparr>"
  using fmt_d_MinimumCapacity
  by (simp add: New_def MinimumCapacity_def minCapacityError_def ErrInvalidCapacity_def)

text \<open>
  Claim C9, as amended. \<open>New\<close> returns an error exactly when the capacity is below 2
  (so \<open>New(-1)\<close>, \<open>New(0)\<close>, \<open>New(1)\<close> fail and \<open>New(2)\<close> succeeds); the error wraps
  the sentinel \<open>ErrInvalidCapacity\<close> and its message is
  \<open>invalid capacity: must be >=2 but N was requested\<close>, with the requested capacity \<open>N\<close>
  in decimal: the comparison is printed as the two ASCII characters \<open>>=\<close>, directly followed
  by the minimum.
\<close>

theorem New_capacity_error:
  "(\<exists>c. (New cap :: wrapError + ('k, 'v) cache) = Inr c) = (2 \<le> cap) \<and>
   (cap < 2 \<longrightarrow>
      (New cap :: wrapError + ('k, 'v) cache) =
        Inl \<lparr>msg = ''invalid capacity: must be >=2 but '' @ fmt_d cap @ '' was requested'',
              wrapped = ErrInvalidCapacity\<rparr>)"
proof (cases "cap < 2")
  case True
  then show ?thesis by (simp add: New_Inl)
next
  case False
  then show ?thesis by (simp add: New_Inr)
qed

text \<open>The four constructor calls of the first required scenario.\<close>

theorem New_capacity_error_witness:
  "(New (- 1) :: wrapError + (int, int) cache) =
      Inl \<lparr>msg = ''invalid capacity: must be >=2 but -1 was requested'',
            wrapped = ''invalid capacity''\<rparr> \<and>
   (New 0 :: wrapError + (int, int) cache) =
      Inl \<lparr>msg = ''invalid capacity: must be >=2 but 0 was requested'',
            wrapped = ''invalid capacity''\<rparr> \<and>
   (New 1 :: wrapError + (int, int) cache) =
      Inl \<lparr>msg = ''invalid capacity: must be >=2 but 1 was requested'',
            wrapped = ''invalid capacity''\<rparr> \<and>
   (\<exists>c. (New 2 :: wrapError + (int, int) cache) = Inr c)"
  using New_capacity_error [of "- 1", where ?'k = int and ?'v = int]
        New_capacity_error [of 0, where ?'k = int and ?'v = int]
        New_capacity_error [of 1, where ?'k = int and ?'v = int]
        New_capacity_error [of 2, where ?'k = int and ?'v = int]
  by (simp add: fmt_d_def decimal.simps digit_def ErrInvalidCapacity_def)

text \<open>
  Claim C9 as stated gives the message with the sign \<open>\<ge>\<close> (in UTF-8 the bytes E2 89 A5)
  and a space before the 2; the message of \<open>New(1)\<close> is not that string.
\<close>

theorem New_message_counterexample:
  "msg (projl (New 1 :: wrapError + (int, int) cache)) \<noteq>
     ''invalid capacity: must be '' @ [CHR 0xE2, CHR 0x89, CHR 0xA5] @ '' 2 but 1 was requested''"
  by (simp add: New_Inl)

section \<open>The counters and targets in reachable states\<close>

lemma run_reachable: "reachable cap c0 \<Longrightarrow> run n c0 xs = Inr c \<Longrightarrow> reachable cap c"
proof (induction xs arbitrary: c0)
  case Nil
  then show ?case by simp
next
  case (Cons x xs)
  from Cons.prems(2) obtain c1 where
    a: "exec n c0 x = Inr c1" and b: "run n c1 xs = Inr c"
    by (auto simp: seq_Inr)
  from Cons.prems(1) a have "reachable cap c1" by (rule reach_exec)
  then show ?case using b by (rule Cons.IH)
qed

lemma scenario_reachable: "scenario cap xs = Some c \<Longrightarrow> reachable cap c"
  by (auto simp: scenario_def split: sum.splits intro: run_reachable reach_New)

lemma scenario_the: "scenario cap xs \<noteq> None \<Longrightarrow> reachable cap (the (scenario cap xs))"
  by (auto intro: scenario_reachable)

lemma New_facts:
  assumes "New cap = Inr c"
  shows "2 \<le> cap" and "capacity c = cap" and "targets_ok c"
    and "hotCount c = 0" and "coldCount c = 0" and "testCount c = 0"
proof -
  show cap: "2 \<le> cap"
    using assms by (auto simp: New_def MinimumCapacity_def split: if_splits)
  then have "1 \<le> cap div 2" by linarith
  with cap assms New_Inr [OF cap, where ?'a = 'a and ?'b = 'b]
    trunc_max_ge [of "fmul (float64 cap) minimumColdRatio"]
  show "capacity c = cap" "targets_ok c" "hotCount c = 0" "coldCount c = 0" "testCount c = 0"
    by (auto simp: targets_ok_def)
qed

lemma New_coldTarget:
  assumes "New cap = Inr c" and "cap < 2 ^ 53"
  shows "coldTarget c = max 1 (min (cap div 100) (cap div 2))"
proof -
  have cap: "2 \<le> cap"
    using assms by (auto simp: New_def MinimumCapacity_def split: if_splits)
  then have d: "cap div 100 \<le> cap div 2" "1 \<le> cap div 2" by linarith+
  from assms(1) New_Inr [OF cap, where ?'a = 'a and ?'b = 'b]
  have "coldTarget c = min (trunc (max (fmul (float64 cap) minimumColdRatio) 1)) (cap div 2)"
    by auto
  also have "\<dots> = min (max (cap div 100) 1) (cap div 2)"
    by (simp only: coldInitial_trunc [OF cap assms(2)])
  also have "\<dots> = max 1 (min (cap div 100) (cap div 2))"
    using d by (simp add: min_def max_def)
  finally show ?thesis .
qed

lemma reachable_invariants:
  "reachable cap c \<Longrightarrow>
     2 \<le> cap \<and> capacity c = cap \<and> targets_ok c \<and>
     hotCount c + coldCount c \<le> cap \<and>
     hotCount c + coldCount c + testCount c \<le> 2 * cap"
proof (induction rule: reachable.induct)
  case (reach_New c)
  then show ?case using New_facts [OF reach_New] by simp
next
  case (reach_exec c n x c')
  then have "step_counts c c'" by (simp add: exec_step)
  with reach_exec.IH show ?case by (auto simp: step_counts_def)
qed

lemma later_at_capacity:
  "later c c' \<Longrightarrow> 2 \<le> capacity c \<Longrightarrow> hotCount c + coldCount c = capacity c \<Longrightarrow>
     capacity c' = capacity c \<and> hotCount c' + coldCount c' = capacity c"
proof (induction rule: later.induct)
  case later_now
  then show ?case by simp
next
  case (later_exec c1 n x c2)
  then have "step_counts c1 c2" by (simp add: exec_step)
  with later_exec show ?case by (auto simp: step_counts_def)
qed

text \<open>
  Claim C4 (invariant I1). In every state a cache of capacity \<open>cap\<close> reaches through public
  calls that return, \<open>Len\<close> is \<open>hotCount + coldCount\<close> and is at most \<open>cap\<close>; and from a state
  where it equals \<open>cap\<close> it equals \<open>cap\<close> after every later public call.
\<close>

theorem resident_count_bounded:
  "reachable cap c \<Longrightarrow>
     Len c = hotCount c + coldCount c \<and> Len c \<le> cap \<and>
     (\<forall>c'. Len c = cap \<and> later c c' \<longrightarrow> Len c' = cap)"
  using reachable_invariants [of cap c] later_at_capacity [of c]
  by (auto simp: Len_def)

text \<open>
  Claim C5 (invariant I2, the metadata bound). In every reachable state of a cache of capacity
  \<open>cap\<close>, \<open>hotCount + coldCount + testCount\<close> is at most \<open>2 * cap\<close>.
\<close>

theorem metadata_bounded:
  "reachable cap c \<Longrightarrow> hotCount c + coldCount c + testCount c \<le> 2 * cap"
  using reachable_invariants [of cap c] by simp

text \<open>
  Claim C6 as stated gives the cold target right after \<open>New cap\<close> as
  \<open>max 1 (min \<lfloor>cap * 0.01\<rfloor> (cap / 2))\<close> for every capacity. \<open>New\<close> takes the product in
  float64: at the capacity \<open>2 ^ 60\<close> the rounded product is \<open>11529215046068470\<close>, while
  \<open>\<lfloor>2 ^ 60 * 0.01\<rfloor>\<close> is \<open>11529215046068469\<close>.
\<close>

theorem targets_initial_counterexample:
  "coldTarget (projr (New (2 ^ 60) :: wrapError + (int, int) cache)) = 11529215046068470 \<and>
   max 1 (min \<lfloor>rat_of_int (2 ^ 60) * (1 / 100)\<rfloor> (2 ^ 60 div 2)) = (11529215046068469 :: int) \<and>
   coldTarget (projr (New (2 ^ 60) :: wrapError + (int, int) cache)) \<noteq>
     max 1 (min \<lfloor>rat_of_int (2 ^ 60) * (1 / 100)\<rfloor> (2 ^ 60 div 2))"
  by code_simp

text \<open>
  Claim C6 (invariant I3), as amended. In every reachable state of a cache of capacity \<open>cap\<close>
  (the constructor's result included) \<open>1 \<le> coldTarget \<le> cap / 2\<close> and
  \<open>hotTarget = cap - coldTarget\<close>; and for a capacity below \<open>2 ^ 53\<close> the cold target right
  after \<open>New cap\<close> is \<open>max 1 (min \<lfloor>cap * 0.01\<rfloor> (cap / 2))\<close>.
\<close>

theorem targets_in_range:
  "reachable cap (c :: ('k, 'v::zero) cache) \<Longrightarrow>
     1 \<le> coldTarget c \<and> coldTarget c \<le> cap div 2 \<and> hotTarget c = cap - coldTarget c \<and>
     (\<forall>c0. cap < 2 ^ 53 \<and> (New cap :: wrapError + ('k, 'v) cache) = Inr c0 \<longrightarrow>
        coldTarget c0 = max 1 (min \<lfloor>rat_of_int cap * (1 / 100)\<rfloor> (cap div 2)))"
proof -
  assume r: "reachable cap c"
  have "\<lfloor>rat_of_int cap / rat_of_int 100\<rfloor> = cap div 100"
    by (rule floor_divide_of_int_eq)
  then have "\<lfloor>rat_of_int cap * (1 / 100)\<rfloor> = cap div 100" by simp
  then show ?thesis
    using reachable_invariants [OF r] New_coldTarget [where ?'a = 'k and ?'b = 'v]
    by (auto simp: targets_ok_def)
qed

text \<open>
  Capacity 4: five insertions and a ghost hit on key 4 move the cold target from 1 to 2 and
  the hot target from 3 to 2. Capacity 1000: the cold target after \<open>New\<close> is 10.
\<close>

theorem targets_in_range_witness:
  "reachable 4 (the (scenario 4 (map (\<lambda>i. CallSet i i) [1, 2, 3, 4, 5, 4 :: int]))) \<and>
   coldTarget (the (scenario 4 (map (\<lambda>i. CallSet i i) [1, 2, 3, 4, 5, 4 :: int]))) = 2 \<and>
   hotTarget (the (scenario 4 (map (\<lambda>i. CallSet i i) [1, 2, 3, 4, 5, 4 :: int]))) = 2 \<and>
   coldTarget (projr (New 4 :: wrapError + (int, int) cache)) = 1 \<and>
   reachable 1000 (projr (New 1000 :: wrapError + (int, int) cache)) \<and>
   coldTarget (projr (New 1000 :: wrapError + (int, int) cache)) = 10"
proof -
  let ?c = "the (scenario 4 (map (\<lambda>i. CallSet i i) [1, 2, 3, 4, 5, 4 :: int]))"
  have "scenario 4 (map (\<lambda>i. CallSet i i) [1, 2, 3, 4, 5, 4 :: int]) \<noteq> None"
    by code_simp
  then have r: "reachable 4 ?c"
    by (rule scenario_the)
  have t: "coldTarget ?c = 2" by code_simp
  obtain c4 where c4: "(New 4 :: wrapError + (int, int) cache) = Inr c4"
    using New_Inr [of 4] by simp
  obtain c0 where c0: "(New 1000 :: wrapError + (int, int) cache) = Inr c0"
    using New_Inr [of 1000] by simp
  then have r0: "reachable 1000 c0" by (rule reach_New)
  show ?thesis
    using r t c4 c0 r0 targets_in_range [OF r] targets_in_range [OF r0] by simp
qed

text \<open>Capacity 2 after five insertions of distinct keys: two residents and two ghosts.\<close>

theorem metadata_bounded_witness:
  "reachable 2 (the (scenario 2 (map (\<lambda>i. CallSet i i) [1, 2, 3, 4, 5 :: int]))) \<and>
   testCount (the (scenario 2 (map (\<lambda>i. CallSet i i) [1, 2, 3, 4, 5 :: int]))) = 2 \<and>
   hotCount (the (scenario 2 (map (\<lambda>i. CallSet i i) [1, 2, 3, 4, 5 :: int]))) +
   coldCount (the (scenario 2 (map (\<lambda>i. CallSet i i) [1, 2, 3, 4, 5 :: int]))) +
   testCount (the (scenario 2 (map (\<lambda>i. CallSet i i) [1, 2, 3, 4, 5 :: int]))) \<le> 2 * 2"
proof -
  have "scenario 2 (map (\<lambda>i. CallSet i i) [1, 2, 3, 4, 5 :: int]) \<noteq> None"
    by code_simp
  then have r: "reachable 2 (the (scenario 2 (map (\<lambda>i. CallSet i i) [1, 2, 3, 4, 5 :: int])))"
    by (rule scenario_the)
  have t: "testCount (the (scenario 2 (map (\<lambda>i. CallSet i i) [1, 2, 3, 4, 5 :: int]))) = 2"
    by code_simp
  show ?thesis
    using r t metadata_bounded [OF r] by simp
qed

text \<open>Capacity 2: two insertions fill the cache, and it is still full after a third.\<close>

theorem resident_count_bounded_witness:
  "reachable 2 (the (scenario 2 [CallSet (1::int) (1::int), CallSet 2 2])) \<and>
   Len (the (scenario 2 [CallSet (1::int) (1::int), CallSet 2 2])) = 2 \<and>
   Len (projr (exec 100 (the (scenario 2 [CallSet (1::int) (1::int), CallSet 2 2]))
                 (CallSet 3 3))) = 2"
proof -
  let ?c = "the (scenario 2 [CallSet (1::int) (1::int), CallSet 2 2])"
  have "scenario 2 [CallSet (1::int) (1::int), CallSet 2 2] \<noteq> None"
    by code_simp
  then have r: "reachable 2 ?c"
    by (rule scenario_the)
  have full: "Len ?c = 2"
    by code_simp
  have "\<not> isl (exec 100 ?c (CallSet 3 3))"
    by code_simp
  then have "exec 100 ?c (CallSet 3 3) = Inr (projr (exec 100 ?c (CallSet 3 3)))"
    by simp
  with later_now have "later ?c (projr (exec 100 ?c (CallSet 3 3)))"
    by (rule later_exec)
  with resident_count_bounded [OF r] r full show ?thesis
    by blast
qed


section \<open>The required scenarios\<close>

text \<open>
  Claim C8 (required scenario 5, eviction order). Capacity 3. After \<open>Set(1,1)\<close>, \<open>Set(2,2)\<close>,
  \<open>Set(3,3)\<close>, \<open>Get(1)\<close>, \<open>Get(2)\<close> the cold hand is on the page of key 3, which is cold,
  resident and not referenced; \<open>Set(4,4)\<close> then returns, and after it the resident keys are
  exactly 1, 2 and 4 (by the index, by the page records and by \<open>Keys\<close>), key 3 being gone
  from the index.
\<close>

theorem eviction_order:
  "(case scenario 3 [CallSet (1::int) (1::int), CallSet 2 2, CallSet 3 3, CallGet 1, CallGet 2] of
      None \<Rightarrow> False
    | Some c \<Rightarrow>
        (case cold c of
           None \<Rightarrow> False
         | Some p \<Rightarrow> Name (pg c p) = 3 \<and> \<not> LIR (pg c p) \<and> Resident (pg c p) \<and>
                     \<not> Referenced (pg c p)) \<and>
        (case exec 100 c (CallSet 4 4) of
           Inl _ \<Rightarrow> False
         | Inr c' \<Rightarrow>
             set (residentKeys c') = {1, 2, 4} \<and>
             set (map Name (filter Resident (pages c'))) = {1, 2, 4} \<and>
             map_of (index c') 3 = None \<and>
             set (Keys c' (index c') (\<lambda>_. True)) = {1, 2, 4})) \<and>
   (case scenario 3 [CallSet (1::int) (1::int), CallSet 2 2, CallSet 3 3, CallGet 1, CallGet 2,
                     CallSet 4 4] of
      None \<Rightarrow> False
    | Some c \<Rightarrow> set (residentKeys c) = {1, 2, 4})"
  by code_simp

text \<open>
  Claim C3 as stated fails. Capacity 2. After \<open>Set(1,1)\<close>, \<open>Set(2,2)\<close>, \<open>Set(3,3)\<close> key 1 is
  not a ghost, and after the further \<open>Set(1,-1)\<close> the cold target is not at least one more
  than right after \<open>New(2)\<close>.
\<close>

theorem ghost_readmit_counterexample:
  "scenario 2 [CallSet (1::int) (1::int), CallSet 2 2, CallSet 3 3] \<noteq> None \<and>
   \<not> isGhost (the (scenario 2 [CallSet (1::int) (1::int), CallSet 2 2, CallSet 3 3])) 1 \<and>
   scenario 2 [CallSet (1::int) (1::int), CallSet 2 2, CallSet 3 3, CallSet 1 (- 1)] \<noteq> None \<and>
   \<not> coldTarget (the (scenario 2 [CallSet (1::int) (1::int), CallSet 2 2, CallSet 3 3,
                                    CallSet 1 (- 1)]))
       \<ge> coldTarget (projr (New 2 :: wrapError + (int, int) cache)) + 1"
  by code_simp

text \<open>
  Claim C3, as amended (required scenario 6). Capacity 2. After \<open>Set(1,1)\<close>, \<open>Set(2,2)\<close> key 1
  is the hot page and key 2 the cold page under the cold hand. \<open>Set(3,3)\<close> evicts key 2 to a
  ghost; key 1 stays resident. \<open>Set(1,-1)\<close> is then a hit on a resident page: it only stores
  the value and sets \<open>Referenced\<close>. Afterwards the resident keys are exactly 1 and 3, and the
  cold target is 1, its initial value and its upper bound \<open>capacity / 2\<close>.
\<close>

theorem ghost_readmit:
  "(case scenario 2 [CallSet (1::int) (1::int), CallSet 2 2] of
      None \<Rightarrow> False
    | Some c \<Rightarrow>
        LIR (pg c 0) \<and> Name (pg c 0) = 1 \<and> cold c = Some 1 \<and> Name (pg c 1) = 2 \<and>
        residentKeys c = [1, 2] \<and>
        (case exec 100 c (CallSet 3 3) of
           Inl _ \<Rightarrow> False
         | Inr c' \<Rightarrow>
             isGhost c' 2 \<and> \<not> isGhost c' 1 \<and> residentKeys c' = [1, 3] \<and>
             Set 100 c' 1 (- 1) =
               Inr (upd c' 0 (\<lambda>x. x\<lparr>Referenced := True, Value := - 1\<rparr>)))) \<and>
   (case scenario 2 [CallSet (1::int) (1::int), CallSet 2 2, CallSet 3 3, CallSet 1 (- 1)] of
      None \<Rightarrow> False
    | Some c \<Rightarrow>
        set (residentKeys c) = {1, 3} \<and> isGhost c 2 \<and>
        coldTarget c = 1 \<and> coldTarget c = coldTarget (projr (New 2 :: wrapError + (int, int) cache)) \<and>
        coldTarget c = capacity c div 2)"
  by code_simp

section \<open>Load on a ghost key\<close>

text \<open>
  \<open>Load\<close> calls \<open>handleMiss\<close> with \<open>hadMetadata = false\<close> whatever the index holds, while
  the comment of \<open>handleMiss\<close> asks the caller to say whether the page's metadata was present
  and \<open>Set\<close> does so. The next three theorems run the code where that matters.
\<close>

text \<open>
  Claim C1 fails on the code. Capacity 2; after \<open>Set(1,1)\<close>, \<open>Set(2,2)\<close>, \<open>Set(3,3)\<close> key 2 is a
  ghost (page 1), and still is after the hot and cold sweeps. \<open>Load\<close> of key 2 with a fetch
  that succeeds allocates a further page record (page 3) for key 2, inserted cold, and leaves
  the ghost page 1 in the ring, not resident: two ring pages now carry key 2. \<open>Set\<close> of key 2
  in the same state resurrects page 1 as a hot page and allocates nothing.
\<close>

theorem Load_ghost_adds_page:
  "(case scenario 2 [CallSet (1::int) (1::int), CallSet 2 2, CallSet 3 3] of
      None \<Rightarrow> False
    | Some c \<Rightarrow>
        map_of (index c) 2 = Some 1 \<and> isGhost c 2 \<and>
        (case seq (sweepHot 100 c) (sweepCold 100) of
           Inl _ \<Rightarrow> False
         | Inr c2 \<Rightarrow> map_of (index c2) 2 = Some 1 \<and> isGhost c2 2) \<and>
        (case Load 100 c 2 (7, None :: string option) of
           Inl _ \<Rightarrow> False
         | Inr (c', v, e) \<Rightarrow>
             length (pages c') = length (pages c) + 1 \<and>
             filter (\<lambda>p. Name (pg c' p) = 2) (ring c') = [3, 1] \<and>
             \<not> Resident (pg c' 1) \<and> \<not> LIR (pg c' 3) \<and>
             map_of (index c') 2 = Some 3) \<and>
        (case Set 100 c 2 7 of
           Inl _ \<Rightarrow> False
         | Inr c' \<Rightarrow>
             length (pages c') = length (pages c) \<and>
             filter (\<lambda>p. Name (pg c' p) = 2) (ring c') = [1] \<and>
             Resident (pg c' 1) \<and> LIR (pg c' 1) \<and>
             map_of (index c') 2 = Some 1))"
  by code_simp

text \<open>
  Claim C2 fails on the code. Capacity 2; after \<open>Set\<close> of keys 1, 2, 3, 4 both halves of I4
  hold and key 2 is a ghost. \<open>Load\<close> of key 2 with a fetch that succeeds then leaves page 4,
  resident and linked in the ring under key 2, without an index entry: pruning the old ghost
  of key 2 deleted the entry that had just been written for the new page.
\<close>

theorem Load_ghost_breaks_index:
  "(case scenario 2 [CallSet (1::int) (1::int), CallSet 2 2, CallSet 3 3, CallSet 4 4] of
      None \<Rightarrow> False
    | Some c \<Rightarrow>
        residentsIndexed c \<and> indexInRing c \<and> isGhost c 2 \<and>
        (case exec 100 c (CallLoad 2 (20, None)) of
           Inl _ \<Rightarrow> False
         | Inr c' \<Rightarrow>
             \<not> residentsIndexed c' \<and>
             Resident (pg c' 4) \<and> Name (pg c' 4) = 2 \<and> 4 \<in> set (ring c') \<and>
             map_of (index c') 2 = None))"
  by code_simp

text \<open>
  Claim C7 fails on the code. In the state of the previous theorem \<open>Len\<close> is 2 and the resident
  page records are those of keys 1 and 2, but the index holds keys 1, 3 and 4, of which only
  key 1 is resident: in each of the six orders in which the index can be enumerated, \<open>Keys\<close>
  yields key 1 and nothing else.
\<close>

theorem Load_ghost_Keys_short:
  "(case scenario 2 [CallSet (1::int) (1::int), CallSet 2 2, CallSet 3 3, CallSet 4 4,
                     CallLoad 2 (20, None)] of
      None \<Rightarrow> False
    | Some c \<Rightarrow>
        Len c = 2 \<and> index c = [(1, 0), (3, 2), (4, 3)] \<and> residentKeys c = [1] \<and>
        map Name (filter Resident (pages c)) = [1, 2] \<and>
        list_all (\<lambda>entries. Keys c entries (\<lambda>_. True) = [1])
          [[(1, 0), (3, 2), (4, 3)], [(1, 0), (4, 3), (3, 2)], [(3, 2), (1, 0), (4, 3)],
           [(3, 2), (4, 3), (1, 0)], [(4, 3), (1, 0), (3, 2)], [(4, 3), (3, 2), (1, 0)]])"
  by code_simp

end
